theory Spec2Isabelle
  imports Main "HOL-Library.Sublist"
begin

section \<open>Python values used by the scraper package\<close>

text \<open>
  A Python \<open>str\<close> is a sequence of code points and \<open>len\<close> counts them. Scraped page
  content, whose length and whitespace matter, is a list of code points (\<open>pystr\<close>).
  Links, titles, image URLs and strategy keys are only compared, searched and passed on,
  so they are HOL strings; the two string tests on links are defined for every list.
\<close>

type_synonym codepoint = nat
type_synonym pystr = "codepoint list"

text \<open>\<open>s.endswith(suf)\<close>.\<close>

definition endswith :: "'a list \<Rightarrow> 'a list \<Rightarrow> bool" where
  "endswith s suf =
     (length suf \<le> length s \<and> drop (length s - length suf) s = suf)"

text \<open>\<open>sub in s\<close> for two strings: \<open>sub\<close> occurs at some position of \<open>s\<close>.\<close>

fun py_in :: "'a list \<Rightarrow> 'a list \<Rightarrow> bool" where
  "py_in sub [] = (sub = [])"
| "py_in sub (c # cs) = (take (length sub) (c # cs) = sub \<or> py_in sub cs)"

text \<open>
  The exceptions the modelled code raises or catches. Every value is an instance of
  Python's class \<open>Exception\<close>, the class both \<open>except Exception\<close> handlers of the package
  name. What is raised outside that class (\<open>KeyboardInterrupt\<close>, \<open>SystemExit\<close>, the
  cancellation of an asyncio task) is a \<open>py_signal\<close>, defined with the extraction task.
\<close>

datatype py_exception =
    Exception string
  | AttributeError string
  | TypeError string
  | ValueError string
  | UnboundLocalError string
  | RequestException string

section \<open>scraper/scraper.py: strategy selection\<close>

datatype scraper_class =
    PyMuPDFScraper
  | ArxivScraper
  | BeautifulSoupScraper
  | WebBaseLoaderScraper
  | BrowserScraper
  | NoDriverScraper
  | TavilyExtract
  | FireCrawl

definition SCRAPER_CLASSES :: "string \<rightharpoonup> scraper_class" where
  "SCRAPER_CLASSES = map_of
     [(''pdf'', PyMuPDFScraper),
      (''arxiv'', ArxivScraper),
      (''bs'', BeautifulSoupScraper),
      (''web_base_loader'', WebBaseLoaderScraper),
      (''browser'', BrowserScraper),
      (''nodriver'', NoDriverScraper),
      (''tavily_extract'', TavilyExtract),
      (''firecrawl'', FireCrawl)]"

text \<open>
  The local variable \<open>scraper_key\<close> of \<open>get_scraper\<close> after its \<open>if/elif/else\<close>;
  \<open>self_scraper\<close> is the field \<open>self.scraper\<close>, the batch's default key.
\<close>

definition scraper_key :: "string \<Rightarrow> string \<Rightarrow> string" where
  "scraper_key self_scraper link =
     (if endswith link ''.pdf'' then ''pdf''
      else if py_in ''arxiv.org'' link then ''arxiv''
      else self_scraper)"

definition get_scraper :: "string \<Rightarrow> string \<Rightarrow> py_exception + scraper_class" where
  "get_scraper self_scraper link =
     (case SCRAPER_CLASSES (scraper_key self_scraper link) of
        None \<Rightarrow> Inl (Exception ''Scraper not found.'')
      | Some scraper_class \<Rightarrow> Inr scraper_class)"

section \<open>scraper/scraper.py: one extraction task and the batch\<close>












subsection \<open>Interpreter signals\<close>

text \<open>
  What a \<open>raise\<close> can raise is wider than \<open>Exception\<close>: task cancellation, a keyboard
  interrupt and interpreter exit derive from \<open>BaseException\<close> only, and \<open>except Exception\<close>
  lets them pass.
\<close>

datatype py_signal = CancelledError | KeyboardInterrupt | SystemExit






section \<open>scraper/scraping-bee and scraper/zenrows: request parameters\<close>

definition PREMIUM_PROXY_DOMAINS :: "string list" where
  "PREMIUM_PROXY_DOMAINS =
     [''reddit.com'', ''twitter.com'', ''linkedin.com'', ''instagram.com'']"

datatype py_value = PyBool bool | PyStr string

record api_request =
  req_url :: string
  req_params :: "(string \<times> py_value) list"
  req_retries :: "nat option"

text \<open>The arguments of \<open>self.client.get\<close> in \<open>ScrapingBeeScraper.scrape\<close>.\<close>

definition scraping_bee_request :: "string \<Rightarrow> api_request" where
  "scraping_bee_request link =
     \<lparr>req_url = link,
      req_params =
        [(''block_ads'', PyBool True),
         (''block_resources'', PyBool True),
         (''premium_proxy'',
            PyBool (if list_ex (\<lambda>domain. py_in domain link) PREMIUM_PROXY_DOMAINS
                    then True else False)),
         (''render_js'', PyBool True)],
      req_retries = Some 2\<rparr>"

text \<open>The arguments of \<open>self.client.get\<close> in \<open>ZenRowsScraper.scrape\<close>.\<close>

definition zenrows_request :: "string \<Rightarrow> api_request" where
  "zenrows_request link =
     \<lparr>req_url = link,
      req_params =
        [(''js_render'', PyStr ''true''),
         (''premium_proxy'',
            PyBool (if list_ex (\<lambda>domain. py_in domain link) PREMIUM_PROXY_DOMAINS
                    then True else False))],
      req_retries = None\<rparr>"

text \<open>The value a request's parameter dictionary holds under \<open>premium_proxy\<close>.\<close>

definition premium_proxy :: "api_request \<Rightarrow> py_value option" where
  "premium_proxy r = map_of (req_params r) ''premium_proxy''"

text \<open>
  The host of a URL as it is written in the link, the notion the specification's
  proxy-tier rule speaks of and the code never computes: the authority follows the
  first \<open>//\<close> and ends before the first \<open>/\<close>, \<open>?\<close> or \<open>#\<close>; the host is what follows
  the authority's last \<open>@\<close>, up to the first \<open>:\<close>.
\<close>

fun after_first :: "'a list \<Rightarrow> 'a list \<Rightarrow> 'a list option" where
  "after_first sub [] = (if sub = [] then Some [] else None)"
| "after_first sub (c # cs) =
     (if take (length sub) (c # cs) = sub then Some (drop (length sub) (c # cs))
      else after_first sub cs)"

definition url_authority :: "string \<Rightarrow> string" where
  "url_authority link =
     (case after_first ''//'' link of
        None \<Rightarrow> []
      | Some rest \<Rightarrow> takeWhile (\<lambda>c. c \<notin> set ''/?#'') rest)"

definition url_host :: "string \<Rightarrow> string" where
  "url_host link =
     takeWhile (\<lambda>c. c \<noteq> CHR '':'')
       (rev (takeWhile (\<lambda>c. c \<noteq> CHR ''@'') (rev (url_authority link))))"

section \<open>scraper/scraping-bee and scraper/zenrows: text normalisation\<close>

text \<open>
  The characters \<open>str.splitlines\<close> breaks lines at, and the characters \<open>str.strip\<close>
  removes (those with \<open>str.isspace\<close>), as code points.
\<close>

definition is_linebreak :: "codepoint \<Rightarrow> bool" where
  "is_linebreak c = (c \<in> {10, 11, 12, 13, 28, 29, 30, 133, 8232, 8233})"

definition is_space :: "codepoint \<Rightarrow> bool" where
  "is_space c =
     ((9 \<le> c \<and> c \<le> 13) \<or> (28 \<le> c \<and> c \<le> 32) \<or> c = 133 \<or> c = 160 \<or> c = 5760 \<or>
      (8192 \<le> c \<and> c \<le> 8202) \<or> c = 8232 \<or> c = 8233 \<or> c = 8239 \<or> c = 8287 \<or>
      c = 12288)"

text \<open>
  \<open>s.splitlines()\<close>: \<open>acc\<close> is the line read so far. A carriage return followed by a
  line feed is one break, and a break at the very end opens no further line.
\<close>

fun splitlines_from :: "pystr \<Rightarrow> pystr \<Rightarrow> pystr list" where
  "splitlines_from acc [] = (if acc = [] then [] else [acc])"
| "splitlines_from acc [c] = (if is_linebreak c then [acc] else [acc @ [c]])"
| "splitlines_from acc (c # d # cs) =
     (if c = 13 \<and> d = 10 then acc # splitlines_from [] cs
      else if is_linebreak c then acc # splitlines_from [] (d # cs)
      else splitlines_from (acc @ [c]) (d # cs))"

definition splitlines :: "pystr \<Rightarrow> pystr list" where
  "splitlines s = splitlines_from [] s"

text \<open>\<open>s.strip()\<close>.\<close>

definition strip :: "pystr \<Rightarrow> pystr" where
  "strip s = rev (dropWhile is_space (rev (dropWhile is_space s)))"

text \<open>
  \<open>s.split(sep)\<close> for a non-empty separator (the code passes the literal of two
  spaces): occurrences are taken from the left and do not overlap; \<open>acc\<close> is the piece
  read so far.
\<close>

function py_split_from :: "'a list \<Rightarrow> 'a list \<Rightarrow> 'a list \<Rightarrow> 'a list list" where
  "py_split_from sep acc [] = [acc]"
| "py_split_from sep acc (c # cs) =
     (if sep \<noteq> [] \<and> take (length sep) (c # cs) = sep
      then acc # py_split_from sep [] (drop (length sep) (c # cs))
      else py_split_from sep (acc @ [c]) cs)"
  by pat_completeness auto
termination
  by (relation "measure (\<lambda>(sep, acc, s). length s)") auto

definition py_split :: "'a list \<Rightarrow> 'a list \<Rightarrow> 'a list list" where
  "py_split sep s = py_split_from sep [] s"

text \<open>\<open>sep.join(xs)\<close>.\<close>

fun join :: "'a list \<Rightarrow> 'a list list \<Rightarrow> 'a list" where
  "join sep [] = []"
| "join sep [x] = x"
| "join sep (x # y # ys) = x @ sep @ join sep (y # ys)"

text \<open>
  \<open>parse_page\<close> over the texts of the elements \<open>soup.find_all(tags)\<close> yields, in
  document order: each text followed by a newline.
\<close>

definition parse_page :: "pystr list \<Rightarrow> pystr" where
  "parse_page elements = foldl (\<lambda>acc element. acc @ element @ [10]) [] elements"

text \<open>
  The three lines after \<open>parse_page\<close>, the same in both adapters: \<open>lines\<close>, \<open>chunks\<close>
  and the joined \<open>text_content\<close>.
\<close>

definition normalize_text :: "pystr \<Rightarrow> pystr" where
  "normalize_text raw =
     (let lines = map strip (splitlines raw);
          chunks = concat (map (\<lambda>line. map strip (py_split [32, 32] line)) lines)
      in join [10] (filter (\<lambda>chunk. chunk \<noteq> []) chunks))"

text \<open>
  \<open>scrape\<close> of either adapter. \<open>client_get\<close> stands for the request and the parsing of
  its response up to \<open>find_all\<close>: an exception raised on the way, or the element texts.
\<close>

definition scraping_bee_scrape ::
  "(api_request \<Rightarrow> py_exception + pystr list) \<Rightarrow> string \<Rightarrow> pystr" where
  "scraping_bee_scrape client_get link =
     (case client_get (scraping_bee_request link) of
        Inl e \<Rightarrow> []
      | Inr elements \<Rightarrow> normalize_text (parse_page elements))"

definition zenrows_scrape ::
  "(api_request \<Rightarrow> py_exception + pystr list) \<Rightarrow> string \<Rightarrow> pystr" where
  "zenrows_scrape client_get link =
     (case client_get (zenrows_request link) of
        Inl e \<Rightarrow> []
      | Inr elements \<Rightarrow> normalize_text (parse_page elements))"

text \<open>A text without any of the characters \<open>str.splitlines\<close> breaks at.\<close>

definition break_free :: "pystr \<Rightarrow> bool" where
  "break_free l = (\<not> list_ex is_linebreak l)"

text \<open>
  The normal form of the specification's idempotence property, with the code's own
  notion of a line: the text is its \<open>splitlines\<close> lines joined by single newlines, and
  every line is non-empty, stripped and free of two spaces in a row.
\<close>

definition normal_line :: "pystr \<Rightarrow> bool" where
  "normal_line l = (l \<noteq> [] \<and> strip l = l \<and> \<not> py_in [32, 32] l)"

definition normal_form :: "pystr \<Rightarrow> bool" where
  "normal_form t = (t = join [10] (splitlines t) \<and> list_all normal_line (splitlines t))"

section \<open>scraper/scraperapi: the bounded retry loop\<close>

record response =
  status_code :: int
  resp_text :: string

text \<open>
  One call of \<open>requests.get\<close>: a response, the \<open>ConnectionError\<close> the loop catches, or
  another exception, which no handler of \<open>scrape_url\<close> catches.
\<close>

datatype get_result =
    Returned response
  | RaisedConnectionError
  | Raised py_exception

text \<open>The local variable \<open>response\<close>: not yet assigned, or holding \<open>None\<close> or a response.\<close>

datatype local_response = Unbound | Bound "response option"

record scraper_api =
  api_key :: string
  num_retries :: int

text \<open>
  The \<open>for\<close> loop with \<open>k\<close> iterations left; \<open>i\<close> counts the requests sent so far and
  \<open>get i\<close> is what request number \<open>i\<close> does. The result pairs the variable after the
  loop (or the exception leaving it) with the number of requests sent.
\<close>

fun retry_loop ::
  "(nat \<Rightarrow> get_result) \<Rightarrow> nat \<Rightarrow> nat \<Rightarrow> local_response \<Rightarrow> (py_exception + local_response) \<times> nat"
where
  "retry_loop get i 0 resp = (Inr resp, i)"
| "retry_loop get i (Suc k) resp =
     (case get i of
        Returned r \<Rightarrow>
          if status_code r \<in> {200, 404} then (Inr (Bound (Some r)), Suc i)
          else retry_loop get (Suc i) k (Bound (Some r))
      | RaisedConnectionError \<Rightarrow> retry_loop get (Suc i) k (Bound None)
      | Raised e \<Rightarrow> (Inl e, Suc i))"

text \<open>
  The truth value of a \<open>requests\<close> response is its \<open>ok\<close>: false exactly for the status
  codes \<open>raise_for_status\<close> rejects.
\<close>

definition response_ok :: "response \<Rightarrow> bool" where
  "response_ok r = (\<not> (400 \<le> status_code r \<and> status_code r < 600))"

text \<open>
  \<open>scrape_url\<close>: \<open>range(self.num_retries)\<close> is empty for a count of zero or less.
  \<open>requests_get link\<close> gives what each successive request for \<open>link\<close> does. Reading the
  unassigned \<open>response\<close> after the loop raises.
\<close>

definition scrape_url ::
  "scraper_api \<Rightarrow> (string \<Rightarrow> nat \<Rightarrow> get_result) \<Rightarrow> string \<Rightarrow> (py_exception + string) \<times> nat"
where
  "scrape_url self requests_get link =
     (case retry_loop (requests_get link) 0 (nat (num_retries self)) Unbound of
        (Inl e, n) \<Rightarrow> (Inl e, n)
      | (Inr Unbound, n) \<Rightarrow>
          (Inl (UnboundLocalError ''cannot access local variable response''), n)
      | (Inr (Bound None), n) \<Rightarrow> (Inr [], n)
      | (Inr (Bound (Some r)), n) \<Rightarrow>
          (if response_ok r \<and> status_code r = 200 then Inr (resp_text r) else Inr [], n))"

text \<open>
  The request \<open>scrape_url\<close> sends on every attempt: the dictionary \<open>params\<close>, with the
  API key and the link and nothing else, to the service's address.
\<close>

definition scrape_url_request :: "scraper_api \<Rightarrow> string \<Rightarrow> api_request" where
  "scrape_url_request self link =
     \<lparr>req_url = ''http://api.scraperapi.com/'',
      req_params = [(''api_key'', PyStr (api_key self)), (''url'', PyStr link)],
      req_retries = None\<rparr>"

section \<open>A concrete batch\<close>







section \<open>String tests against their mathematical reading\<close>

lemma endswith_iff_suffix: "endswith s suf \<longleftrightarrow> suffix suf s"
proof
  assume "endswith s suf"
  then have "s = take (length s - length suf) s @ suf"
    by (metis append_take_drop_id endswith_def)
  then show "suffix suf s"
    by (metis suffixI)
next
  assume "suffix suf s"
  then obtain p where "s = p @ suf"
    by (auto simp: suffix_def)
  then show "endswith s suf"
    by (simp add: endswith_def)
qed

lemma py_in_iff_sublist: "py_in sub s \<longleftrightarrow> sublist sub s"
proof (induction s)
  case Nil
  then show ?case by auto
next
  case (Cons c cs)
  have "prefix sub (c # cs) \<longleftrightarrow> take (length sub) (c # cs) = sub"
    by (metis append_eq_conv_conj prefix_def)
  with Cons show ?case
    by (simp add: sublist_Cons_right del: take_Suc_Cons)
qed

text \<open>The host of a link is a piece of the link, so what the host contains the link contains.\<close>

lemma after_first_suffix: "after_first sub s = Some rest \<Longrightarrow> suffix rest s"
proof (induction s)
  case Nil
  then show ?case by (auto split: if_splits)
next
  case (Cons c cs)
  show ?case
  proof (cases "take (length sub) (c # cs) = sub")
    case True
    with Cons.prems have "rest = drop (length sub) (c # cs)" by simp
    then show ?thesis by (simp only: suffix_drop)
  next
    case False
    with Cons.prems have "after_first sub cs = Some rest" by simp
    then have "suffix rest cs" by (rule Cons.IH)
    then show ?thesis by (rule suffix_ConsI)
  qed
qed

lemma url_authority_sublist: "sublist (url_authority link) link"
proof (cases "after_first ''//'' link")
  case None
  then show ?thesis by (simp add: url_authority_def)
next
  case (Some rest)
  have "prefix (takeWhile (\<lambda>c. c \<notin> set ''/?#'') rest) rest"
    by (rule takeWhile_is_prefix)
  moreover have "suffix rest link"
    using Some by (rule after_first_suffix)
  ultimately show ?thesis
    using Some unfolding url_authority_def
    by (metis (no_types, lifting) option.simps(5) prefix_imp_sublist sublist_order.order_trans suffix_imp_sublist)
qed

lemma url_host_sublist: "sublist (url_host link) link"
proof -
  let ?a = "url_authority link"
  let ?h = "rev (takeWhile (\<lambda>c. c \<noteq> CHR ''@'') (rev ?a))"
  have "suffix ?h ?a"
    by (metis prefix_order.order_refl rev_rev_ident suffix_to_prefix takeWhile_is_prefix)
  then have "sublist ?h link"
    using url_authority_sublist [of link]
    by (meson sublist_order.order_trans suffix_imp_sublist)
  moreover have "prefix (url_host link) ?h"
    unfolding url_host_def by (rule takeWhile_is_prefix)
  ultimately show ?thesis
    by (meson prefix_imp_sublist sublist_order.order_trans)
qed

lemma host_contains_link_contains:
  "sublist x (url_host link) \<Longrightarrow> py_in x link"
  using url_host_sublist [of link]
  by (meson py_in_iff_sublist sublist_order.order_trans)

section \<open>Strategy selection\<close>

lemma SCRAPER_CLASSES_pdf: "SCRAPER_CLASSES ''pdf'' = Some PyMuPDFScraper"
  by (simp add: SCRAPER_CLASSES_def)

lemma SCRAPER_CLASSES_arxiv: "SCRAPER_CLASSES ''arxiv'' = Some ArxivScraper"
  by (simp add: SCRAPER_CLASSES_def)

text \<open>
  Claim C4. Strategy selection is a function of the default key and the link, so it is
  total on keys and deterministic, and it resolves by first match: a link that ends in
  \<open>.pdf\<close> gets the key \<open>pdf\<close> and the class registered for it, whatever the default;
  otherwise a link that contains \<open>arxiv.org\<close> gets \<open>arxiv\<close>; otherwise the default key
  is looked up (and \<open>get_scraper\<close> raises when no class is registered for it).
\<close>

theorem get_scraper_first_match:
  "scraper_key d link =
     (if (\<exists>p. link = p @ ''.pdf'') then ''pdf''
      else if (\<exists>p q. link = p @ ''arxiv.org'' @ q) then ''arxiv''
      else d)
   \<and> get_scraper d link =
     (if (\<exists>p. link = p @ ''.pdf'') then Inr PyMuPDFScraper
      else if (\<exists>p q. link = p @ ''arxiv.org'' @ q) then Inr ArxivScraper
      else (case SCRAPER_CLASSES d of
              None \<Rightarrow> Inl (Exception ''Scraper not found.'')
            | Some c \<Rightarrow> Inr c))"
proof -
  have pdf: "endswith link ''.pdf'' \<longleftrightarrow> (\<exists>p. link = p @ ''.pdf'')"
    by (simp add: endswith_iff_suffix suffix_def)
  have arxiv: "py_in ''arxiv.org'' link \<longleftrightarrow> (\<exists>p q. link = p @ ''arxiv.org'' @ q)"
    by (simp add: py_in_iff_sublist sublist_def)
  have key: "scraper_key d link =
     (if (\<exists>p. link = p @ ''.pdf'') then ''pdf''
      else if (\<exists>p q. link = p @ ''arxiv.org'' @ q) then ''arxiv''
      else d)"
    unfolding scraper_key_def pdf arxiv by (rule refl)
  show ?thesis
    unfolding get_scraper_def key
    by (simp add: SCRAPER_CLASSES_pdf SCRAPER_CLASSES_arxiv)
qed

theorem get_scraper_first_match_witness:
  "get_scraper ''arxiv'' ''https://example.com/paper.pdf'' = Inr PyMuPDFScraper
   \<and> get_scraper ''bs'' ''https://arxiv.org/abs/2301.00001'' = Inr ArxivScraper
   \<and> get_scraper ''bs'' ''https://example.com/'' = Inr BeautifulSoupScraper"
proof -
  have a: "get_scraper ''arxiv'' ''https://example.com/paper.pdf'' = Inr PyMuPDFScraper"
    using get_scraper_first_match [of "''arxiv''" "''https://example.com/paper.pdf''"]
    by (simp add: SCRAPER_CLASSES_def)
  have b: "get_scraper ''bs'' ''https://arxiv.org/abs/2301.00001'' = Inr ArxivScraper"
    by (simp add: get_scraper_def scraper_key_def endswith_def SCRAPER_CLASSES_def)
  have c: "get_scraper ''bs'' ''https://example.com/'' = Inr BeautifulSoupScraper"
    by (simp add: get_scraper_def scraper_key_def endswith_def SCRAPER_CLASSES_def)
  from a b c show ?thesis by simp
qed

text \<open>
  Claim C3, as amended. A link that contains \<open>arxiv.org\<close> (in its host or anywhere else)
  resolves to the arxiv strategy unless it ends in \<open>.pdf\<close>; a link that contains
  \<open>arxiv.org\<close> and ends in \<open>.pdf\<close> resolves to the pdf strategy. A link whose host
  contains \<open>arxiv.org\<close> is such a link, by \<open>host_contains_link_contains\<close>.
\<close>

theorem arxiv_unless_pdf:
  assumes "\<exists>p q. link = p @ ''arxiv.org'' @ q"
  shows "get_scraper d link =
           Inr (if (\<exists>p. link = p @ ''.pdf'') then PyMuPDFScraper else ArxivScraper)"
proof -
  have pdf: "endswith link ''.pdf'' \<longleftrightarrow> (\<exists>p. link = p @ ''.pdf'')"
    by (simp add: endswith_iff_suffix suffix_def)
  have "py_in ''arxiv.org'' link"
    using assms by (simp add: py_in_iff_sublist sublist_def)
  then show ?thesis
    unfolding get_scraper_def scraper_key_def pdf
    by (simp add: SCRAPER_CLASSES_pdf SCRAPER_CLASSES_arxiv)
qed

theorem arxiv_unless_pdf_witness:
  "(\<exists>p q. ''https://arxiv.org/abs/2301.00001'' = p @ ''arxiv.org'' @ q)
   \<and> get_scraper ''bs'' ''https://arxiv.org/abs/2301.00001'' = Inr ArxivScraper"
proof -
  have h: "\<exists>p q. ''https://arxiv.org/abs/2301.00001'' = p @ ''arxiv.org'' @ q"
    by (rule exI [of _ "''https://''"], rule exI [of _ "''/abs/2301.00001''"]) simp
  have "get_scraper ''bs'' ''https://arxiv.org/abs/2301.00001'' = Inr ArxivScraper"
    using arxiv_unless_pdf [OF h, of "''bs''"]
    by (simp add: get_scraper_def scraper_key_def endswith_def SCRAPER_CLASSES_def)
  with h show ?thesis by simp
qed

text \<open>
  Claim C3 as stated fails: the host of this link is \<open>arxiv.org\<close>, the link ends in
  \<open>.pdf\<close>, and the pdf test comes first.
\<close>

theorem arxiv_pdf_counterexample:
  "url_host ''https://arxiv.org/pdf/2301.00001.pdf'' = ''arxiv.org''
   \<and> py_in ''arxiv.org'' ''https://arxiv.org/pdf/2301.00001.pdf''
   \<and> scraper_key ''bs'' ''https://arxiv.org/pdf/2301.00001.pdf'' = ''pdf''
   \<and> get_scraper ''bs'' ''https://arxiv.org/pdf/2301.00001.pdf'' = Inr PyMuPDFScraper
   \<and> get_scraper ''bs'' ''https://arxiv.org/pdf/2301.00001.pdf'' \<noteq> Inr ArxivScraper"
  by (simp add: url_host_def url_authority_def get_scraper_def scraper_key_def endswith_def
      SCRAPER_CLASSES_def)

section \<open>The extraction task and the batch\<close>










subsection \<open>Failure containment\<close>












section \<open>Proxy tier of the API-backed adapters\<close>

lemma any_premium_domain:
  "list_ex (\<lambda>domain. py_in domain link) PREMIUM_PROXY_DOMAINS \<longleftrightarrow>
   (\<exists>d\<in>set PREMIUM_PROXY_DOMAINS. \<exists>p q. link = p @ d @ q)"
  by (simp add: list_ex_iff py_in_iff_sublist sublist_def)

text \<open>
  Claim C6, as amended. The ScrapingBee and ZenRows adapters send \<open>premium_proxy\<close> true
  exactly when the link contains one of the four premium domains somewhere, and false
  otherwise; so a link whose host, as written, is one of the four is sent with true.
  The test reads the whole link, not its host. The third API-backed adapter, ScraperAPI,
  sends no \<open>premium_proxy\<close> parameter at all.
\<close>

theorem premium_proxy_is_substring_test:
  "premium_proxy (scraping_bee_request link) =
     Some (PyBool (\<exists>d\<in>set PREMIUM_PROXY_DOMAINS. \<exists>p q. link = p @ d @ q))
   \<and> premium_proxy (zenrows_request link) =
     Some (PyBool (\<exists>d\<in>set PREMIUM_PROXY_DOMAINS. \<exists>p q. link = p @ d @ q))
   \<and> (url_host link \<in> set PREMIUM_PROXY_DOMAINS \<longrightarrow>
        premium_proxy (scraping_bee_request link) = Some (PyBool True) \<and>
        premium_proxy (zenrows_request link) = Some (PyBool True))
   \<and> premium_proxy (scrape_url_request api link) = None"
proof -
  have bee: "premium_proxy (scraping_bee_request link) =
     Some (PyBool (\<exists>d\<in>set PREMIUM_PROXY_DOMAINS. \<exists>p q. link = p @ d @ q))"
    unfolding premium_proxy_def scraping_bee_request_def any_premium_domain by simp
  have zen: "premium_proxy (zenrows_request link) =
     Some (PyBool (\<exists>d\<in>set PREMIUM_PROXY_DOMAINS. \<exists>p q. link = p @ d @ q))"
    unfolding premium_proxy_def zenrows_request_def any_premium_domain by simp
  have api: "premium_proxy (scrape_url_request api link) = None"
    by (simp add: premium_proxy_def scrape_url_request_def)
  have "\<exists>d\<in>set PREMIUM_PROXY_DOMAINS. \<exists>p q. link = p @ d @ q"
    if "url_host link \<in> set PREMIUM_PROXY_DOMAINS"
    using that url_host_sublist [of link] unfolding sublist_def by blast
  with bee zen api show ?thesis by simp
qed

theorem premium_proxy_is_substring_test_witness:
  "url_host ''https://reddit.com/r/python'' \<in> set PREMIUM_PROXY_DOMAINS
   \<and> premium_proxy (scraping_bee_request ''https://reddit.com/r/python'') = Some (PyBool True)
   \<and> premium_proxy (zenrows_request ''https://reddit.com/r/python'') = Some (PyBool True)
   \<and> premium_proxy (scrape_url_request \<lparr>api_key = ''key'', num_retries = 5\<rparr>
        ''https://reddit.com/r/python'') = None"
proof -
  have h: "url_host ''https://reddit.com/r/python'' \<in> set PREMIUM_PROXY_DOMAINS"
    by (simp add: url_host_def url_authority_def PREMIUM_PROXY_DOMAINS_def)
  with premium_proxy_is_substring_test
    [of "''https://reddit.com/r/python''" "\<lparr>api_key = ''key'', num_retries = 5\<rparr>"]
  show ?thesis by blast
qed

text \<open>
  Claim C6 as stated fails: the host of this link is not a premium domain, yet both
  adapters send \<open>premium_proxy\<close> true, because the query string mentions one.
\<close>

theorem premium_proxy_host_counterexample:
  "url_host ''https://example.com/?ref=reddit.com'' = ''example.com''
   \<and> ''example.com'' \<notin> set PREMIUM_PROXY_DOMAINS
   \<and> premium_proxy (scraping_bee_request ''https://example.com/?ref=reddit.com'') =
       Some (PyBool True)
   \<and> premium_proxy (zenrows_request ''https://example.com/?ref=reddit.com'') =
       Some (PyBool True)"
  by (simp add: url_host_def url_authority_def PREMIUM_PROXY_DOMAINS_def premium_proxy_def
      scraping_bee_request_def zenrows_request_def)

section \<open>The bounded retry loop\<close>

lemma retry_loop_connection_errors:
  "(\<forall>j<k. get (i + j) = RaisedConnectionError) \<Longrightarrow> 0 < k \<Longrightarrow>
   retry_loop get i k resp = (Inr (Bound None), i + k)"
proof (induction k arbitrary: i resp)
  case 0
  then show ?case by simp
next
  case (Suc k)
  have first: "get i = RaisedConnectionError"
    using Suc.prems(1) [rule_format, of 0] by simp
  show ?case
  proof (cases k)
    case 0
    with first show ?thesis by simp
  next
    case (Suc k')
    have "\<forall>j<k. get (Suc i + j) = RaisedConnectionError"
      using Suc.prems(1) by (metis Suc_less_eq add_Suc_right add_Suc)
    then have "retry_loop get (Suc i) k (Bound None) = (Inr (Bound None), Suc i + k)"
      using Suc by (intro Suc.IH) simp_all
    with first show ?thesis by simp
  qed
qed

lemma scrape_url_all_connection_errors:
  assumes "0 < num_retries self"
    and "\<forall>i<nat (num_retries self). requests_get link i = RaisedConnectionError"
  shows "scrape_url self requests_get link = (Inr [], nat (num_retries self))"
proof -
  have "retry_loop (requests_get link) 0 (nat (num_retries self)) Unbound =
        (Inr (Bound None), 0 + nat (num_retries self))"
    using assms by (intro retry_loop_connection_errors) simp_all
  then show ?thesis by (simp add: scrape_url_def)
qed

text \<open>
  Claim C7 at a retry count of zero: no request is sent, so every one of the zero
  attempts raised a connection error, and \<open>scrape_url\<close> raises instead of returning the
  empty string. For every positive count \<open>scrape_url_all_connection_errors\<close> gives the
  empty string after exactly that many requests.
\<close>

theorem zero_retries_raises:
  "scrape_url \<lparr>api_key = k, num_retries = 0\<rparr> (\<lambda>link i. RaisedConnectionError) link =
     (Inl (UnboundLocalError ''cannot access local variable response''), 0)"
  by (simp add: scrape_url_def)

text \<open>
  Claim C8. When the first request returns status 404, \<open>scrape_url\<close> returns the empty
  string after that one request.
\<close>

theorem first_404_is_terminal:
  assumes "0 < num_retries self"
    and "requests_get link 0 = Returned r"
    and "status_code r = 404"
  shows "scrape_url self requests_get link = (Inr [], 1)"
proof -
  obtain k where k: "nat (num_retries self) = Suc k"
    using assms(1) by (metis Suc_pred' zero_less_nat_eq)
  have "retry_loop (requests_get link) 0 (Suc k) Unbound = (Inr (Bound (Some r)), 1)"
    using assms(2,3) by simp
  then show ?thesis
    using assms(3) by (simp add: scrape_url_def k response_ok_def)
qed

theorem first_404_is_terminal_witness:
  "(0::int) < 5
   \<and> scrape_url \<lparr>api_key = ''key'', num_retries = 5\<rparr>
       (\<lambda>link i. Returned \<lparr>status_code = 404, resp_text = ''not found''\<rparr>)
       ''https://example.com/'' = (Inr [], 1)"
  using first_404_is_terminal
    [of "\<lparr>api_key = ''key'', num_retries = 5\<rparr>"
        "\<lambda>link i. Returned \<lparr>status_code = 404, resp_text = ''not found''\<rparr>"
        "''https://example.com/''" "\<lparr>status_code = 404, resp_text = ''not found''\<rparr>"]
  by simp

lemma retry_loop_bound:
  "(\<forall>j e. get j \<noteq> Raised e) \<Longrightarrow> resp \<noteq> Unbound \<or> 0 < k \<Longrightarrow>
   \<exists>b n. retry_loop get i k resp = (Inr (Bound b), n) \<and> i \<le> n \<and> n \<le> i + k \<and> (0 < k \<longrightarrow> i < n)"
proof (induction k arbitrary: i resp)
  case 0
  then show ?case by (cases resp) auto
next
  case (Suc k)
  show ?case
  proof (cases "get i")
    case (Returned r)
    show ?thesis
    proof (cases "status_code r \<in> {200, 404}")
      case True
      with Returned show ?thesis by simp
    next
      case False
      obtain b n where "retry_loop get (Suc i) k (Bound (Some r)) = (Inr (Bound b), n)"
        "Suc i \<le> n" "n \<le> Suc i + k"
        using Suc.IH [OF Suc.prems(1), of "Bound (Some r)" "Suc i"] by auto
      with Returned False show ?thesis by auto
    qed
  next
    case RaisedConnectionError
    obtain b n where "retry_loop get (Suc i) k (Bound None) = (Inr (Bound b), n)"
      "Suc i \<le> n" "n \<le> Suc i + k"
      using Suc.IH [OF Suc.prems(1), of "Bound None" "Suc i"] by auto
    with RaisedConnectionError show ?thesis by auto
  next
    case (Raised e)
    with Suc.prems(1) show ?thesis by simp
  qed
qed

text \<open>
  Claim C10. With a retry count of zero or less \<open>scrape_url\<close> sends no request and
  raises \<open>UnboundLocalError\<close>; so it returns a string only if the count is at least
  one, and with a count of at least one it does return a string, after at least one
  and at most that many requests, provided \<open>requests.get\<close> raises nothing but
  connection errors.
\<close>

theorem scrape_url_needs_a_retry:
  "(num_retries self \<le> 0 \<longrightarrow>
      scrape_url self requests_get link =
        (Inl (UnboundLocalError ''cannot access local variable response''), 0))
   \<and> (\<forall>s n. scrape_url self requests_get link = (Inr s, n) \<longrightarrow> 1 \<le> num_retries self)
   \<and> (1 \<le> num_retries self \<and> (\<forall>i e. requests_get link i \<noteq> Raised e) \<longrightarrow>
        (\<exists>s n. scrape_url self requests_get link = (Inr s, n) \<and>
               1 \<le> n \<and> n \<le> nat (num_retries self)))"
proof -
  have zero: "scrape_url self requests_get link =
        (Inl (UnboundLocalError ''cannot access local variable response''), 0)"
    if "num_retries self \<le> 0"
    using that by (simp add: scrape_url_def)
  have only: "1 \<le> num_retries self" if "scrape_url self requests_get link = (Inr s, n)" for s n
  proof (rule ccontr)
    assume "\<not> 1 \<le> num_retries self"
    then have "num_retries self \<le> 0" by simp
    from zero [OF this] that show False by simp
  qed
  have pos: "\<exists>s n. scrape_url self requests_get link = (Inr s, n) \<and> 1 \<le> n \<and> n \<le> nat (num_retries self)"
    if one: "1 \<le> num_retries self" and quiet: "\<forall>i e. requests_get link i \<noteq> Raised e"
  proof -
    have "0 < nat (num_retries self)" using one by simp
    then obtain b n where
      "retry_loop (requests_get link) 0 (nat (num_retries self)) Unbound = (Inr (Bound b), n)"
      "0 < n" "n \<le> nat (num_retries self)"
      using retry_loop_bound [of "requests_get link" Unbound "nat (num_retries self)" 0] quiet
      by auto
    then show ?thesis
      by (cases b) (auto simp: scrape_url_def)
  qed
  from zero only pos show ?thesis by blast
qed

theorem scrape_url_needs_a_retry_witness:
  "scrape_url \<lparr>api_key = ''key'', num_retries = 0\<rparr>
       (\<lambda>link i. Returned \<lparr>status_code = 200, resp_text = ''page''\<rparr>) ''https://example.com/'' =
     (Inl (UnboundLocalError ''cannot access local variable response''), 0)
   \<and> scrape_url \<lparr>api_key = ''key'', num_retries = 1\<rparr>
       (\<lambda>link i. Returned \<lparr>status_code = 200, resp_text = ''page''\<rparr>) ''https://example.com/'' =
     (Inr ''page'', 1)"
proof -
  have a: "scrape_url \<lparr>api_key = ''key'', num_retries = 0\<rparr>
       (\<lambda>link i. Returned \<lparr>status_code = 200, resp_text = ''page''\<rparr>) ''https://example.com/'' =
     (Inl (UnboundLocalError ''cannot access local variable response''), 0)"
    using scrape_url_needs_a_retry
      [of "\<lparr>api_key = ''key'', num_retries = 0\<rparr>"
          "\<lambda>link i. Returned \<lparr>status_code = 200, resp_text = ''page''\<rparr>"
          "''https://example.com/''"]
    by simp
  have b: "scrape_url \<lparr>api_key = ''key'', num_retries = 1\<rparr>
       (\<lambda>link i. Returned \<lparr>status_code = 200, resp_text = ''page''\<rparr>) ''https://example.com/'' =
     (Inr ''page'', 1)"
    by (simp add: scrape_url_def response_ok_def)
  from a b show ?thesis by simp
qed

section \<open>Text normalisation\<close>

lemma py_split_from_no_separator:
  "sep \<noteq> [] \<Longrightarrow> \<not> py_in sep s \<Longrightarrow> py_split_from sep acc s = [acc @ s]"
proof (induction s arbitrary: acc)
  case Nil
  then show ?case by simp
next
  case (Cons c cs)
  from Cons.prems(2) have here: "take (length sep) (c # cs) \<noteq> sep" and later: "\<not> py_in sep cs"
    by simp_all
  have "py_split_from sep acc (c # cs) = py_split_from sep (acc @ [c]) cs"
    using here by simp
  also have "\<dots> = [(acc @ [c]) @ cs]"
    using Cons.prems(1) later by (rule Cons.IH)
  finally show ?case by simp
qed

lemma normal_line_chunks:
  assumes "normal_line l"
  shows "map strip (py_split [32, 32] (strip l)) = [l]"
proof -
  from assms have s: "strip l = l" and d: "\<not> py_in [32, 32] l"
    by (simp_all add: normal_line_def)
  have "py_split [32, 32] l = [l]"
    unfolding py_split_def using py_split_from_no_separator [of "[32, 32]" l "[]"] d by simp
  with s show ?thesis by simp
qed

lemma normal_lines_chunks:
  "list_all normal_line ls \<Longrightarrow>
   concat (map (\<lambda>line. map strip (py_split [32, 32] line)) (map strip ls)) = ls"
  by (induction ls) (simp_all add: normal_line_chunks)

lemma normal_lines_nonempty:
  "list_all normal_line ls \<Longrightarrow> filter (\<lambda>chunk. chunk \<noteq> []) ls = ls"
  by (induction ls) (simp_all add: normal_line_def)

lemma normalize_text_normal_lines:
  assumes "list_all normal_line (splitlines t)"
  shows "normalize_text t = join [10] (splitlines t)"
  unfolding normalize_text_def Let_def
  by (simp only: normal_lines_chunks [OF assms] normal_lines_nonempty [OF assms])

text \<open>
  What the normalisation produces is in normal form, so it is idempotent on every
  text; and the normal forms are exactly the joins by single newlines of lines that
  are non-empty, stripped, without two spaces in a row and without a character that
  \<open>str.splitlines\<close> breaks at.
\<close>

lemma break_free_simps [simp]:
  "break_free []"
  "break_free (c # cs) \<longleftrightarrow> \<not> is_linebreak c \<and> break_free cs"
  "break_free (xs @ ys) \<longleftrightarrow> break_free xs \<and> break_free ys"
  by (auto simp: break_free_def list_ex_iff)

lemma cr_is_linebreak: "is_linebreak 13" and lf_is_linebreak: "is_linebreak 10"
  by (simp_all add: is_linebreak_def)

lemma splitlines_from_break_free:
  "break_free acc \<Longrightarrow> l \<in> set (splitlines_from acc s) \<Longrightarrow> break_free l"
  by (induction acc s rule: splitlines_from.induct) (auto split: if_splits)

lemma splitlines_from_single:
  "break_free l \<Longrightarrow> acc @ l \<noteq> [] \<Longrightarrow> splitlines_from acc l = [acc @ l]"
  by (induction acc l rule: splitlines_from.induct) (auto simp: cr_is_linebreak)

lemma splitlines_from_first:
  "break_free l \<Longrightarrow> rest \<noteq> [] \<Longrightarrow>
   splitlines_from acc (l @ 10 # rest) = (acc @ l) # splitlines_from [] rest"
proof (induction l arbitrary: acc)
  case Nil
  then show ?case by (cases rest) (simp_all add: lf_is_linebreak)
next
  case (Cons c l)
  then have c: "\<not> is_linebreak c" "c \<noteq> 13" by (auto simp: cr_is_linebreak)
  obtain d ds where ds: "l @ 10 # rest = d # ds" by (cases l) auto
  have "splitlines_from acc ((c # l) @ 10 # rest) = splitlines_from (acc @ [c]) (l @ 10 # rest)"
    using c by (simp add: ds)
  also have "\<dots> = ((acc @ [c]) @ l) # splitlines_from [] rest"
    using Cons.prems by (intro Cons.IH) simp_all
  finally show ?case by simp
qed

lemma join_nonempty: "\<forall>l\<in>set ls. l \<noteq> [] \<Longrightarrow> ls \<noteq> [] \<Longrightarrow> join sep ls \<noteq> []"
  by (induction sep ls rule: join.induct) auto

lemma splitlines_join:
  "\<forall>l\<in>set ls. l \<noteq> [] \<and> break_free l \<Longrightarrow> splitlines (join [10] ls) = ls"
proof (induction "[10::nat]" ls rule: join.induct)
  case 1
  then show ?case by (simp add: splitlines_def)
next
  case (2 x)
  then show ?case using splitlines_from_single [of x "[]"] by (simp add: splitlines_def)
next
  case (3 x y ys)
  have rest: "join [10] (y # ys) \<noteq> []"
    using 3(2) by (intro join_nonempty) simp_all
  have "splitlines (join [10] (y # ys)) = y # ys"
    using 3 by simp
  then show ?case
    using 3(2) splitlines_from_first [of x "join [10] (y # ys)" "[]"] rest
    by (simp add: splitlines_def)
qed


lemma strip_sublist: "sublist (strip s) s"
proof -
  have "prefix (strip s) (dropWhile is_space s)"
    unfolding strip_def
    by (metis rev_rev_ident suffix_dropWhile suffix_to_prefix)
  moreover have "suffix (dropWhile is_space s) s"
    by (rule suffix_dropWhile)
  ultimately show ?thesis
    by (meson prefix_imp_sublist sublist_order.order_trans suffix_imp_sublist)
qed

lemma rstrip_prefix: "prefix (rev (dropWhile P (rev xs))) xs"
  by (metis rev_rev_ident suffix_dropWhile suffix_to_prefix)

lemma rstrip_keeps_head:
  assumes "xs = [] \<or> \<not> P (hd xs)"
  shows "dropWhile P (rev (dropWhile P (rev xs))) = rev (dropWhile P (rev xs))"
proof (cases "rev (dropWhile P (rev xs)) = []")
  case True
  show ?thesis by (simp only: True dropWhile.simps)
next
  case False
  obtain zs where "xs = rev (dropWhile P (rev xs)) @ zs"
    using rstrip_prefix [of P xs] by (auto simp: prefix_def)
  with False have "hd (rev (dropWhile P (rev xs))) = hd xs" and "xs \<noteq> []"
    by (metis hd_append2, metis append_is_Nil_conv)
  with assms show ?thesis
    by (simp only: dropWhile_eq_self_iff) simp
qed

lemma strip_strip: "strip (strip s) = strip s"
proof -
  let ?t = "dropWhile is_space s"
  have "?t = [] \<or> \<not> is_space (hd ?t)"
    using hd_dropWhile [of is_space s] by blast
  then have "dropWhile is_space (strip s) = strip s"
    unfolding strip_def by (rule rstrip_keeps_head)
  then show ?thesis
    by (simp add: strip_def)
qed

lemma suffix_single: "suffix [a] ys \<longleftrightarrow> ys \<noteq> [] \<and> last ys = a"
proof (cases ys rule: rev_cases)
  case Nil
  then show ?thesis by simp
next
  case (snoc zs z)
  have "suffix ([] @ [a]) (zs @ [z]) \<longleftrightarrow> a = z \<and> suffix [] zs"
    by (rule snoc_suffix_snoc)
  with snoc show ?thesis by auto
qed

lemma sublist_pair_snoc:
  "sublist [a, b] (xs @ [c]) \<longleftrightarrow> sublist [a, b] xs \<or> (xs \<noteq> [] \<and> last xs = a \<and> c = b)"
proof -
  have "suffix ([a] @ [b]) (xs @ [c]) \<longleftrightarrow> b = c \<and> suffix [a] xs"
    by (rule snoc_suffix_snoc)
  then have "suffix [a, b] (xs @ [c]) \<longleftrightarrow> b = c \<and> xs \<noteq> [] \<and> last xs = a"
    by (simp add: suffix_single)
  then show ?thesis
    unfolding sublist_snoc by blast
qed

lemma py_split_from_pieces:
  "\<not> sublist [32, 32] acc \<Longrightarrow>
   (acc \<noteq> [] \<and> last acc = 32 \<longrightarrow> s = [] \<or> hd s \<noteq> 32) \<Longrightarrow>
   p \<in> set (py_split_from [32, 32::nat] acc s) \<Longrightarrow> \<not> sublist [32, 32] p"
proof (induction "[32, 32::nat]" acc s rule: py_split_from.induct)
  case (1 acc)
  then show ?case by simp
next
  case (2 acc c cs)
  let ?K = "[32, 32::nat] \<noteq> [] \<and> take (length [32, 32::nat]) (c # cs) = [32, 32]"
  show ?case
  proof (cases ?K)
    case True
    have "py_split_from [32, 32] acc (c # cs) =
          acc # py_split_from [32, 32] [] (drop (length [32, 32::nat]) (c # cs))"
      using True by simp
    with "2.prems"(3)
    have "p = acc \<or> p \<in> set (py_split_from [32, 32] [] (drop (length [32, 32::nat]) (c # cs)))"
      by simp
    then show ?thesis
    proof
      assume "p = acc"
      with "2.prems"(1) show ?thesis by simp
    next
      assume "p \<in> set (py_split_from [32, 32] [] (drop (length [32, 32::nat]) (c # cs)))"
      then show ?thesis
        by (intro "2.hyps"(1) [OF True]) simp_all
    qed
  next
    case False
    have eq: "py_split_from [32, 32] acc (c # cs) = py_split_from [32, 32] (acc @ [c]) cs"
      using False by auto
    have nd: "\<not> sublist [32, 32] (acc @ [c])"
      using "2.prems"(1,2) by (auto simp: sublist_pair_snoc)
    have inv: "acc @ [c] \<noteq> [] \<and> last (acc @ [c]) = 32 \<longrightarrow> cs = [] \<or> hd cs \<noteq> 32"
      using False by (cases cs) auto
    have "p \<in> set (py_split_from [32, 32] (acc @ [c]) cs)"
      using "2.prems"(3) eq by simp
    then show ?thesis
      by (intro "2.hyps"(2) [OF False nd inv])
  qed
qed


lemma break_free_iff: "break_free l \<longleftrightarrow> (\<forall>c\<in>set l. \<not> is_linebreak c)"
  by (simp add: break_free_def list_ex_iff)

lemma break_free_sublist: "sublist xs ys \<Longrightarrow> break_free ys \<Longrightarrow> break_free xs"
  by (auto simp: break_free_iff dest: set_mono_sublist)

lemma py_split_from_set:
  "p \<in> set (py_split_from sep acc s) \<Longrightarrow> set p \<subseteq> set acc \<union> set s"
proof (induction sep acc s rule: py_split_from.induct)
  case (1 sep acc)
  then show ?case by simp
next
  case (2 sep acc c cs)
  show ?case
  proof (cases "sep \<noteq> [] \<and> take (length sep) (c # cs) = sep")
    case True
    with "2.prems" have "p = acc \<or> p \<in> set (py_split_from sep [] (drop (length sep) (c # cs)))"
      by simp
    then show ?thesis
    proof
      assume "p = acc"
      then show ?thesis by auto
    next
      assume "p \<in> set (py_split_from sep [] (drop (length sep) (c # cs)))"
      then have "set p \<subseteq> set [] \<union> set (drop (length sep) (c # cs))"
        by (rule "2.IH"(1) [OF True])
      moreover have "set (drop (length sep) (c # cs)) \<subseteq> set (c # cs)"
        by (rule set_drop_subset)
      ultimately show ?thesis by auto
    qed
  next
    case False
    with "2.prems" have "p \<in> set (py_split_from sep (acc @ [c]) cs)"
      by auto
    then have "set p \<subseteq> set (acc @ [c]) \<union> set cs"
      by (rule "2.IH"(2) [OF False])
    then show ?thesis by auto
  qed
qed

lemma chunk_normal:
  assumes line: "break_free line"
    and p: "p \<in> set (py_split [32, 32] (strip line))"
    and ne: "strip p \<noteq> []"
  shows "normal_line (strip p) \<and> break_free (strip p)"
proof -
  have "\<not> sublist [32, 32] p"
    using p unfolding py_split_def
    by (intro py_split_from_pieces [of "[]" "strip line" p]) simp_all
  then have nd: "\<not> py_in [32, 32] (strip p)"
    using strip_sublist [of p]
    by (meson py_in_iff_sublist sublist_order.order_trans)
  have "set p \<subseteq> set (strip line)"
    using py_split_from_set [of p "[32, 32]" "[]" "strip line"] p by (simp add: py_split_def)
  moreover have "set (strip line) \<subseteq> set line" and "set (strip p) \<subseteq> set p"
    using strip_sublist set_mono_sublist by blast+
  ultimately have "break_free (strip p)"
    using line by (auto simp: break_free_iff)
  with nd ne show ?thesis
    by (simp add: normal_line_def strip_strip)
qed

lemma normalize_text_chunks:
  assumes "ch \<in> set (filter (\<lambda>chunk. chunk \<noteq> [])
     (concat (map (\<lambda>line. map strip (py_split [32, 32] line)) (map strip (splitlines s)))))"
  shows "normal_line ch \<and> break_free ch"
proof -
  from assms obtain line p where "line \<in> set (splitlines s)"
    and "p \<in> set (py_split [32, 32] (strip line))" and "ch = strip p" and "ch \<noteq> []"
    by auto
  moreover have "break_free line"
    using \<open>line \<in> set (splitlines s)\<close> unfolding splitlines_def
    by (intro splitlines_from_break_free [of "[]" line s]) simp_all
  ultimately show ?thesis
    using chunk_normal by simp
qed

lemma normal_form_join:
  assumes "\<forall>l\<in>set ls. normal_line l \<and> break_free l"
  shows "normal_form (join [10] ls)"
proof -
  have "splitlines (join [10] ls) = ls"
    using assms by (intro splitlines_join) (simp add: normal_line_def)
  with assms show ?thesis
    by (simp add: normal_form_def list_all_iff)
qed

lemma normal_form_iff:
  "normal_form t \<longleftrightarrow>
   (\<exists>ls. t = join [10] ls \<and> (\<forall>l\<in>set ls. normal_line l \<and> break_free l))"
proof
  assume nf: "normal_form t"
  have "\<forall>l\<in>set (splitlines t). break_free l"
    unfolding splitlines_def using splitlines_from_break_free [of "[]" _ t] by simp
  with nf show "\<exists>ls. t = join [10] ls \<and> (\<forall>l\<in>set ls. normal_line l \<and> break_free l)"
    unfolding normal_form_def list_all_iff by blast
next
  assume "\<exists>ls. t = join [10] ls \<and> (\<forall>l\<in>set ls. normal_line l \<and> break_free l)"
  then show "normal_form t"
    using normal_form_join by blast
qed

lemma normal_form_normalize_text: "normal_form (normalize_text s)"
  unfolding normalize_text_def Let_def
  using normalize_text_chunks [of _ s] by (intro normal_form_join) blast

lemma normalize_text_idempotent: "normalize_text (normalize_text s) = normalize_text s"
proof -
  have nf: "normal_form (normalize_text s)"
    by (rule normal_form_normalize_text)
  then have "normalize_text (normalize_text s) = join [10] (splitlines (normalize_text s))"
    unfolding normal_form_def by (intro normalize_text_normal_lines) simp
  with nf show ?thesis
    by (simp add: normal_form_def)
qed

text \<open>Either adapter returns a normal form: the empty text after an exception, a normalised text otherwise.\<close>

lemma adapter_results_normal:
  "normal_form (scraping_bee_scrape client_get link)"
  "normal_form (zenrows_scrape client_get link)"
proof -
  have "normal_form []"
    by (simp add: normal_form_def splitlines_def)
  then show "normal_form (scraping_bee_scrape client_get link)"
    and "normal_form (zenrows_scrape client_get link)"
    by (simp_all add: scraping_bee_scrape_def zenrows_scrape_def normal_form_normalize_text
        split: sum.splits)
qed

text \<open>
  Claim C9. A text in normal form (its lines joined by single newlines, each line
  non-empty, stripped and without two spaces in a row) is left unchanged by the
  normalisation of the two adapters. Lines are those of \<open>str.splitlines\<close>, as in the
  code; by \<open>normal_form_normalize_text\<close> and \<open>normal_form_iff\<close> these texts are
  exactly the results of the normalisation.
\<close>

theorem normalize_text_fixes_normal_form:
  assumes "normal_form t"
  shows "normalize_text t = t"
proof -
  from assms have joined: "t = join [10] (splitlines t)"
    and lines: "list_all normal_line (splitlines t)"
    by (simp_all add: normal_form_def)
  from lines have "normalize_text t = join [10] (splitlines t)"
    by (rule normalize_text_normal_lines)
  with joined show ?thesis by simp
qed

theorem normalize_text_fixes_normal_form_witness:
  "normal_form [97, 10, 98, 32, 99] \<and> normalize_text [97, 10, 98, 32, 99] = [97, 10, 98, 32, 99]"
proof -
  have h: "normal_form [97, 10, 98, 32, 99]"
    by (simp add: normal_form_def splitlines_def is_linebreak_def normal_line_def strip_def
        is_space_def)
  from h normalize_text_fixes_normal_form [OF h] show ?thesis by simp
qed

end
